theory Spec2Isabelle
  imports Main
begin

section \<open>JavaScript strings, character classes and sets\<close>

text \<open>
  A JavaScript string is modelled as a \<^typ>\<open>string\<close>: the model covers texts whose
  UTF-16 code units are below 256, one \<^typ>\<open>char\<close> per code unit.  A character class
  is a list of inclusive ranges, as it is written between the brackets of a regular
  expression literal.
\<close>

type_synonym cls = "(char \<times> char) list"

definition in_cls :: "cls \<Rightarrow> char \<Rightarrow> bool" where
  "in_cls k c =
     list_ex (\<lambda>r. (of_char (fst r) :: int) \<le> of_char c \<and> (of_char c :: int) \<le> of_char (snd r)) k"

text \<open>\<^verbatim>\<open>\w\<close> is \<^verbatim>\<open>[A-Za-z0-9_]\<close>; \<^verbatim>\<open>\d\<close> is \<^verbatim>\<open>[0-9]\<close>; \<^verbatim>\<open>\s\<close> is the white space and
  line terminator set, of which TAB, LF, VT, FF, CR, SPACE and NBSP lie below 256.\<close>

definition wordClass :: cls where
  "wordClass = [(CHR ''a'', CHR ''z''), (CHR ''A'', CHR ''Z''), (CHR ''0'', CHR ''9''),
                (CHR ''_'', CHR ''_'')]"

definition digitClass :: cls where
  "digitClass = [(CHR ''0'', CHR ''9'')]"

definition spaceClass :: cls where
  "spaceClass = [(CHR 0x09, CHR 0x0D), (CHR '' '', CHR '' ''), (CHR 0xA0, CHR 0xA0)]"

text \<open>\<^verbatim>\<open>[-.\s]\<close>, the separator class of the phone pattern and of the phone clean-up.\<close>

definition sepClass :: cls where
  "sepClass = (CHR ''-'', CHR ''-'') # (CHR ''.'', CHR ''.'') # spaceClass"

definition isSpace :: "char \<Rightarrow> bool" where
  "isSpace c = in_cls spaceClass c"

definition isSep :: "char \<Rightarrow> bool" where
  "isSep c = in_cls sepClass c"

text \<open>\<^verbatim>\<open>String.prototype.trim\<close>: strips the white space and line terminators (the same
  set as \<^verbatim>\<open>\s\<close>) from both ends.\<close>

primrec trimEnd :: "string \<Rightarrow> string" where
  "trimEnd [] = []"
| "trimEnd (c # cs) =
     (case trimEnd cs of [] \<Rightarrow> if isSpace c then [] else [c] | d # ds \<Rightarrow> c # d # ds)"

definition trim :: "string \<Rightarrow> string" where
  "trim s = trimEnd (dropWhile isSpace s)"

text \<open>\<^verbatim>\<open>s.replace(pat, rep)\<close> with a string pattern replaces the first occurrence only.\<close>

fun replace_str :: "string \<Rightarrow> string \<Rightarrow> string \<Rightarrow> string" where
  "replace_str pat rep [] = (if pat = [] then rep else [])"
| "replace_str pat rep (c # cs) =
     (if take (length pat) (c # cs) = pat then rep @ drop (length pat) (c # cs)
      else c # replace_str pat rep cs)"

text \<open>A JavaScript \<^verbatim>\<open>Set\<close> of strings keeps its elements in insertion order; it is
  modelled as the list of its elements in that order.  \<^verbatim>\<open>[...new Set(xs)]\<close> inserts the
  elements of \<open>xs\<close> from left to right and spreads the set back into an array.\<close>

definition set_has :: "'a list \<Rightarrow> 'a \<Rightarrow> bool" where
  "set_has s x = (x \<in> set s)"

definition set_add :: "'a list \<Rightarrow> 'a \<Rightarrow> 'a list" where
  "set_add s x = (if set_has s x then s else s @ [x])"

definition unique :: "'a list \<Rightarrow> 'a list" where
  "unique xs = foldl set_add [] xs"

section \<open>Regular expressions with backtracking\<close>

text \<open>
  The patterns of the scraper use character classes, concatenation, greedy quantifiers
  and the word boundary assertion.  A matcher maps a state (the character before the
  current position, and the rest of the input) to the list of all states in which a
  match can end, in the order in which a backtracking engine tries them; the head of the
  list is the match that the engine reports.
\<close>

datatype regex =
    Eps
  | Cls cls
  | Seq regex regex
  | Rep nat "nat option" regex
  | WordB

type_synonym mstate = "char option \<times> string"

text \<open>The quantifier \<^verbatim>\<open>{mn,mx}\<close> (greedy; \<open>mx = None\<close> is no upper bound), following
  RepeatMatcher of the language specification: an iteration that is no longer required
  and consumes nothing is rejected; the iterations are tried before stopping.\<close>

function repeatMatcher ::
  "(mstate \<Rightarrow> mstate list) \<Rightarrow> nat \<Rightarrow> nat option \<Rightarrow> mstate \<Rightarrow> mstate list" where
  "repeatMatcher f mn mx x =
     (if mx = Some 0 then [x]
      else concat (map (repeatMatcher f (mn - 1) (map_option (\<lambda>k. k - 1) mx))
                    (filter (\<lambda>y. mn \<noteq> 0 \<or> length (snd y) < length (snd x)) (f x)))
           @ (if mn = 0 then [x] else []))"
  by pat_completeness auto
termination
  by (relation "measures [\<lambda>(f, mn, mx, x). mn, \<lambda>(f, mn, mx, x). length (snd x)]") auto

declare repeatMatcher.simps [simp del]

definition isWordChar :: "char option \<Rightarrow> bool" where
  "isWordChar p = (case p of None \<Rightarrow> False | Some c \<Rightarrow> in_cls wordClass c)"

fun matcher :: "regex \<Rightarrow> mstate \<Rightarrow> mstate list" where
  "matcher Eps x = [x]"
| "matcher (Cls k) (p, s) =
     (case s of [] \<Rightarrow> [] | c # cs \<Rightarrow> if in_cls k c then [(Some c, cs)] else [])"
| "matcher (Seq a b) x = concat (map (matcher b) (matcher a x))"
| "matcher (Rep mn mx r) x = repeatMatcher (matcher r) mn mx x"
| "matcher WordB (p, s) =
     (if isWordChar p \<noteq> isWordChar (case s of [] \<Rightarrow> None | c # _ \<Rightarrow> Some c)
      then [(p, s)] else [])"

text \<open>One attempt at the current position: the matched text and the state after it.\<close>

definition exec_at :: "regex \<Rightarrow> mstate \<Rightarrow> (string \<times> mstate) option" where
  "exec_at re x =
     (case matcher re x of
        [] \<Rightarrow> None
      | y # _ \<Rightarrow> Some (take (length (snd x) - length (snd y)) (snd x), y))"

text \<open>The leftmost match at or after the current position: the text skipped before it,
  the matched text and the state after it.\<close>

fun search :: "regex \<Rightarrow> char option \<Rightarrow> string \<Rightarrow> (string \<times> string \<times> mstate) option" where
  "search re p [] = (case exec_at re (p, []) of None \<Rightarrow> None | Some (w, y) \<Rightarrow> Some ([], w, y))"
| "search re p (c # cs) =
     (case exec_at re (p, c # cs) of
        Some (w, y) \<Rightarrow> Some ([], w, y)
      | None \<Rightarrow> (case search re (Some c) cs of
                   None \<Rightarrow> None
                 | Some (pre, w, y) \<Rightarrow> Some (c # pre, w, y)))"

text \<open>\<^verbatim>\<open>s.match(re)\<close> without the \<^verbatim>\<open>g\<close> flag: the first match, or \<^verbatim>\<open>null\<close>.\<close>

definition match_first :: "regex \<Rightarrow> string \<Rightarrow> string option" where
  "match_first re s = (case search re None s of None \<Rightarrow> None | Some (pre, w, y) \<Rightarrow> Some w)"

lemma repeatMatcher_le:
  "(\<forall>x y. y \<in> set (f x) \<longrightarrow> length (snd y) \<le> length (snd x)) \<Longrightarrow>
   y \<in> set (repeatMatcher f mn mx x) \<Longrightarrow> length (snd y) \<le> length (snd x)"
proof (induction f mn mx x arbitrary: y rule: repeatMatcher.induct)
  case (1 f mn mx x)
  show ?case
  proof (cases "mx = Some 0")
    case True
    with "1.prems" show ?thesis by (simp add: repeatMatcher.simps)
  next
    case False
    from "1.prems"(2) False consider
      (iter) z where "z \<in> set (f x)" "mn \<noteq> 0 \<or> length (snd z) < length (snd x)"
                   "y \<in> set (repeatMatcher f (mn - 1) (map_option (\<lambda>k. k - 1) mx) z)"
      | (stop) "y = x"
      by (subst (asm) repeatMatcher.simps) (auto split: if_splits)
    then show ?thesis
    proof cases
      case iter
      have "z \<in> set (filter (\<lambda>y. mn \<noteq> 0 \<or> length (snd y) < length (snd x)) (f x))"
        using iter(1,2) by simp
      from "1.IH"[OF False this "1.prems"(1) iter(3)]
      have "length (snd y) \<le> length (snd z)" .
      moreover have "length (snd z) \<le> length (snd x)" using "1.prems"(1) iter(1) by blast
      ultimately show ?thesis by simp
    next
      case stop
      then show ?thesis by simp
    qed
  qed
qed

lemma matcher_le: "y \<in> set (matcher re x) \<Longrightarrow> length (snd y) \<le> length (snd x)"
proof (induction re arbitrary: x y)
  case (Cls k)
  then show ?case by (cases x) (auto split: list.splits if_splits)
next
  case (Seq a b)
  from Seq.prems obtain z where z: "z \<in> set (matcher a x)" "y \<in> set (matcher b z)" by auto
  from Seq.IH(1)[OF z(1)] Seq.IH(2)[OF z(2)] show ?case by simp
next
  case (Rep mn mx r)
  then show ?case using repeatMatcher_le[of "matcher r" y mn mx x] by simp
next
  case WordB
  then show ?case by (cases x) (auto split: if_splits)
qed simp

lemma exec_at_le:
  "exec_at re x = Some (w, y) \<Longrightarrow>
   length (snd y) \<le> length (snd x) \<and> length w = length (snd x) - length (snd y)"
  using matcher_le[of y re x] by (auto simp: exec_at_def split: list.splits)

lemma search_le:
  "search re p s = Some (pre, w, y) \<Longrightarrow> length pre + length w + length (snd y) = length s"
proof (induction s arbitrary: p pre)
  case Nil
  then show ?case using exec_at_le[of re "(p, [])" w y] by (auto split: option.splits)
next
  case (Cons c cs)
  show ?case
  proof (cases "exec_at re (p, c # cs)")
    case None
    with Cons.prems obtain pre' where
      "search re (Some c) cs = Some (pre', w, y)" "pre = c # pre'"
      by (auto split: option.splits)
    with Cons.IH[of "Some c" pre'] show ?thesis by simp
  next
    case (Some r)
    with Cons.prems have "exec_at re (p, c # cs) = Some (w, y)" "pre = []"
      by (auto split: option.splits)
    with exec_at_le[of re "(p, c # cs)" w y] show ?thesis by simp
  qed
qed

text \<open>\<^verbatim>\<open>s.match(re)\<close> with the \<^verbatim>\<open>g\<close> flag: all matches from left to right, each search
  starting where the previous match ended (one character further after an empty match).\<close>

function match_from :: "regex \<Rightarrow> char option \<Rightarrow> string \<Rightarrow> string list" where
  "match_from re p s =
     (case search re p s of
        None \<Rightarrow> []
      | Some (pre, w, (p', s')) \<Rightarrow>
          w # (if w = [] then (case s' of [] \<Rightarrow> [] | c # cs \<Rightarrow> match_from re (Some c) cs)
               else match_from re p' s'))"
  by pat_completeness auto
termination
proof (relation "measure (\<lambda>(re, p, s). length s)")
  show "wf (measure (\<lambda>(re, p, s). length s))" by simp
next
  fix re :: regex and p s x2 pre r w y p' s' c cs
  assume "search re p s = Some x2" "(pre, r) = x2" "(w, y) = r" "(p', s') = y" "s' = c # cs"
  then show "((re, Some c, cs), re, p, s) \<in> measure (\<lambda>(re, p, s). length s)"
    using search_le[of re p s pre w "(p', s')"] by auto
next
  fix re :: regex and p s x2 pre r w y p' s'
  assume "search re p s = Some x2" "(pre, r) = x2" "(w, y) = r" "(p', s') = y" "w \<noteq> []"
  then show "((re, p', s'), re, p, s) \<in> measure (\<lambda>(re, p, s). length s)"
    using search_le[of re p s pre w "(p', s')"] by (cases w) auto
qed

declare match_from.simps [simp del]

definition match_g :: "regex \<Rightarrow> string \<Rightarrow> string list" where
  "match_g re s = match_from re None s"

text \<open>\<^verbatim>\<open>s.replace(re, rep)\<close> with the \<^verbatim>\<open>g\<close> flag and a replacement without \<^verbatim>\<open>$\<close>: the
  text between the matches is kept and every match becomes \<open>rep\<close>.\<close>

function replace_from :: "regex \<Rightarrow> string \<Rightarrow> char option \<Rightarrow> string \<Rightarrow> string" where
  "replace_from re rep p s =
     (case search re p s of
        None \<Rightarrow> s
      | Some (pre, w, (p', s')) \<Rightarrow>
          pre @ rep @
            (if w = [] then (case s' of [] \<Rightarrow> [] | c # cs \<Rightarrow> c # replace_from re rep (Some c) cs)
             else replace_from re rep p' s'))"
  by pat_completeness auto
termination
proof (relation "measure (\<lambda>(re, rep, p, s). length s)")
  show "wf (measure (\<lambda>(re, rep, p, s). length s))" by simp
next
  fix re :: regex and rep :: string and p s x2 pre r w y p' s' c cs
  assume "search re p s = Some x2" "(pre, r) = x2" "(w, y) = r" "(p', s') = y" "s' = c # cs"
  then show "((re, rep, Some c, cs), re, rep, p, s) \<in> measure (\<lambda>(re, rep, p, s). length s)"
    using search_le[of re p s pre w "(p', s')"] by auto
next
  fix re :: regex and rep :: string and p s x2 pre r w y p' s'
  assume "search re p s = Some x2" "(pre, r) = x2" "(w, y) = r" "(p', s') = y" "w \<noteq> []"
  then show "((re, rep, p', s'), re, rep, p, s) \<in> measure (\<lambda>(re, rep, p, s). length s)"
    using search_le[of re p s pre w "(p', s')"] by (cases w) auto
qed

declare replace_from.simps [simp del]

definition replace_g :: "regex \<Rightarrow> string \<Rightarrow> string \<Rightarrow> string" where
  "replace_g re rep s = replace_from re rep None s"

section \<open>The pattern library\<close>

definition rcat :: "regex list \<Rightarrow> regex" where
  "rcat rs = foldr Seq rs Eps"

definition rlit :: "char \<Rightarrow> regex" where
  "rlit c = Cls [(c, c)]"

definition ropt :: "regex \<Rightarrow> regex" where
  "ropt r = Rep 0 (Some 1) r"

definition rplus :: "regex \<Rightarrow> regex" where
  "rplus r = Rep 1 None r"

definition rstar :: "regex \<Rightarrow> regex" where
  "rstar r = Rep 0 None r"

definition rtimes :: "nat \<Rightarrow> regex \<Rightarrow> regex" where
  "rtimes n r = Rep n (Some n) r"

text \<open>\<^verbatim>\<open>/[a-zA-Z0-9._%+-]+@[a-zA-Z0-9.-]+\.[a-zA-Z]{2,7}/g\<close>\<close>

definition emailPattern :: regex where
  "emailPattern = rcat
     [rplus (Cls [(CHR ''a'', CHR ''z''), (CHR ''A'', CHR ''Z''), (CHR ''0'', CHR ''9''),
                  (CHR ''.'', CHR ''.''), (CHR ''_'', CHR ''_''), (CHR ''%'', CHR ''%''),
                  (CHR ''+'', CHR ''+''), (CHR ''-'', CHR ''-'')]),
      rlit CHR ''@'',
      rplus (Cls [(CHR ''a'', CHR ''z''), (CHR ''A'', CHR ''Z''), (CHR ''0'', CHR ''9''),
                  (CHR ''.'', CHR ''.''), (CHR ''-'', CHR ''-'')]),
      rlit CHR ''.'',
      Rep 2 (Some 7) (Cls [(CHR ''a'', CHR ''z''), (CHR ''A'', CHR ''Z'')])]"

text \<open>\<^verbatim>\<open>/\+?[1-9]\d{1,2}[-.\s]?\(?\d{3}\)?[-.\s]?\d{3}[-.\s]?\d{4}/g\<close>\<close>

definition phonePattern :: regex where
  "phonePattern = rcat
     [ropt (rlit CHR ''+''), Cls [(CHR ''1'', CHR ''9'')], Rep 1 (Some 2) (Cls digitClass),
      ropt (Cls sepClass), ropt (rlit CHR ''(''), rtimes 3 (Cls digitClass),
      ropt (rlit CHR '')''), ropt (Cls sepClass), rtimes 3 (Cls digitClass),
      ropt (Cls sepClass), rtimes 4 (Cls digitClass)]"

text \<open>\<^verbatim>\<open>/\d{1,5}\s\w+(\s\w+)*,\s\w+(\s\w+)*,\s[A-Z]{2}\s\d{5}/g\<close>\<close>

definition addressPattern :: regex where
  "addressPattern = rcat
     [Rep 1 (Some 5) (Cls digitClass), Cls spaceClass, rplus (Cls wordClass),
      rstar (rcat [Cls spaceClass, rplus (Cls wordClass)]), rlit CHR '','',
      Cls spaceClass, rplus (Cls wordClass),
      rstar (rcat [Cls spaceClass, rplus (Cls wordClass)]), rlit CHR '','',
      Cls spaceClass, rtimes 2 (Cls [(CHR ''A'', CHR ''Z'')]), Cls spaceClass,
      rtimes 5 (Cls digitClass)]"

text \<open>\<^verbatim>\<open>/\$?\d{1,3}(?:,\d{3})*(?:\.\d{2})?/g\<close>\<close>

definition donationPattern :: regex where
  "donationPattern = rcat
     [ropt (rlit (CHR 0x24)), Rep 1 (Some 3) (Cls digitClass),
      rstar (rcat [rlit CHR '','', rtimes 3 (Cls digitClass)]),
      ropt (rcat [rlit CHR ''.'', rtimes 2 (Cls digitClass)])]"

text \<open>\<^verbatim>\<open>/\b([A-Z][a-z]+ [A-Z][a-z]+)\b/\<close>: the only group spans the whole match, so
  \<^verbatim>\<open>nameMatch[1]\<close> is the matched text.\<close>

definition namePattern :: regex where
  "namePattern = rcat
     [WordB, Cls [(CHR ''A'', CHR ''Z'')], rplus (Cls [(CHR ''a'', CHR ''z'')]), rlit CHR '' '',
      Cls [(CHR ''A'', CHR ''Z'')], rplus (Cls [(CHR ''a'', CHR ''z'')]), WordB]"

text \<open>\<^verbatim>\<open>phone.replace(/[-.\s]+/g, ' ').trim()\<close>\<close>

definition cleanPhone :: "string \<Rightarrow> string" where
  "cleanPhone phone = trim (replace_g (rplus (Cls sepClass)) '' '' phone)"

section \<open>Entity extraction\<close>

text \<open>The four entity lists of a text.  For the page they are deduplicated (and the
  phones cleaned); a PDF record stores the lists of matches as \<^verbatim>\<open>match\<close> returns them.\<close>

record entities =
  emails :: "string list"
  phones :: "string list"
  addresses :: "string list"
  donations :: "string list"

text \<open>\<^verbatim>\<open>emailLinks\<close>: the \<^verbatim>\<open>href\<close> of every \<^verbatim>\<open>a[href^="mailto:"]\<close>, without the first
  \<^verbatim>\<open>mailto:\<close>, trimmed.\<close>

definition emailLinks :: "string list \<Rightarrow> string list" where
  "emailLinks hrefs = map (\<lambda>href. trim (replace_str ''mailto:'' [] href)) hrefs"

definition uniqueEmails :: "string \<Rightarrow> string list \<Rightarrow> string list" where
  "uniqueEmails pageText hrefs = unique (match_g emailPattern pageText @ emailLinks hrefs)"

definition cleanedPhones :: "string \<Rightarrow> string list" where
  "cleanedPhones pageText = map cleanPhone (match_g phonePattern pageText)"

definition uniquePhones :: "string \<Rightarrow> string list" where
  "uniquePhones pageText = unique (cleanedPhones pageText)"

definition uniqueAddresses :: "string \<Rightarrow> string list" where
  "uniqueAddresses pageText = unique (match_g addressPattern pageText)"

definition uniqueDonations :: "string \<Rightarrow> string list" where
  "uniqueDonations pageText = unique (match_g donationPattern pageText)"

text \<open>The page-level extraction (lines 69 to 92 of the script) as one function of the
  text and the mailto links.\<close>

definition extractEntities :: "string \<Rightarrow> string list \<Rightarrow> entities" where
  "extractEntities pageText hrefs =
     \<lparr>emails = uniqueEmails pageText hrefs, phones = uniquePhones pageText,
      addresses = uniqueAddresses pageText, donations = uniqueDonations pageText\<rparr>"

text \<open>The \<^verbatim>\<open>extracted\<close> object of a PDF record (lines 115 to 120).\<close>

definition pdfExtracted :: "string \<Rightarrow> entities" where
  "pdfExtracted pdfText =
     \<lparr>emails = match_g emailPattern pdfText, phones = match_g phonePattern pdfText,
      addresses = match_g addressPattern pdfText, donations = match_g donationPattern pdfText\<rparr>"

section \<open>Donor profiles\<close>

record donor =
  name :: string
  donor_emails :: "string list"
  donor_phones :: "string list"

text \<open>\<^verbatim>\<open>pageText.split(/\r?\n/)\<close>: a line ends at LF, or at CR immediately followed by
  LF; the terminators are dropped.\<close>

fun splitLines :: "string \<Rightarrow> string list" where
  "splitLines [] = [[]]"
| "splitLines (c # cs) =
     (if c = CHR 0x0A then [] # splitLines cs
      else if c = CHR 0x0D \<and> take 1 cs = [CHR 0x0A] then [] # splitLines (drop 1 cs)
      else (case splitLines cs of [] \<Rightarrow> [[c]] | l # ls \<Rightarrow> (c # l) # ls))"

text \<open>\<^verbatim>\<open>.map(l => l.trim()).filter(Boolean)\<close>\<close>

definition pageLines :: "string \<Rightarrow> string list" where
  "pageLines pageText = filter (\<lambda>l. l \<noteq> []) (map trim (splitLines pageText))"

text \<open>The state of the profile loop: the profiles pushed so far and the two sets of
  claimed contacts.\<close>

record builder =
  donorProfiles :: "donor list"
  usedEmails :: "string list"
  usedPhones :: "string list"

text \<open>The inner loops over the matches of one line (lines 148 to 159): a match that is
  not yet in the used set is pushed to the found list and added to the set.\<close>

definition claim :: "string list \<times> string list \<Rightarrow> string \<Rightarrow> string list \<times> string list" where
  "claim fu e = (if \<not> set_has (snd fu) e then (fst fu @ [e], set_add (snd fu) e) else fu)"

text \<open>The contacts a line offers: its email matches, and its phone matches cleaned.\<close>

definition emailMatches :: "string \<Rightarrow> string list" where
  "emailMatches l = match_g emailPattern l"

definition phoneMatches :: "string \<Rightarrow> string list" where
  "phoneMatches l = map cleanPhone (match_g phonePattern l)"

text \<open>The indices \<open>j\<close> of the window, from \<^verbatim>\<open>Math.max(0, i - 2)\<close> to
  \<^verbatim>\<open>Math.min(lines.length - 1, i + 2)\<close> inclusive (subtraction on \<^typ>\<open>nat\<close> stops at 0).\<close>

definition window :: "string list \<Rightarrow> nat \<Rightarrow> nat list" where
  "window lines i = [i - 2 ..< Suc (min (length lines - 1) (i + 2))]"

text \<open>The scan of the window (lines 142 to 160).  The state is the two found lists, each
  paired with its used set; every line of the window offers its emails, then its phones.\<close>

type_synonym scan = "(string list \<times> string list) \<times> (string list \<times> string list)"

definition scanLine :: "string list \<Rightarrow> scan \<Rightarrow> nat \<Rightarrow> scan" where
  "scanLine lines sc j =
     (foldl claim (fst sc) (emailMatches (lines ! j)),
      foldl claim (snd sc) (phoneMatches (lines ! j)))"

definition scanWindow :: "string list \<Rightarrow> nat \<Rightarrow> string list \<Rightarrow> string list \<Rightarrow> scan" where
  "scanWindow lines i usedE usedP =
     foldl (scanLine lines) (([], usedE), ([], usedP)) (window lines i)"

text \<open>The body of \<^verbatim>\<open>if (nameMatch)\<close> (lines 140 to 168) for the matched name.\<close>

definition processName :: "string list \<Rightarrow> builder \<Rightarrow> nat \<Rightarrow> string \<Rightarrow> builder" where
  "processName lines st i nm =
     (let sc = scanWindow lines i (usedEmails st) (usedPhones st);
          emailsFound = fst (fst sc);
          phonesFound = fst (snd sc)
      in \<lparr>donorProfiles =
            (if (length emailsFound > 0 \<or> length phonesFound > 0) \<and> length nm > 4
             then donorProfiles st @
                    [\<lparr>name = nm, donor_emails = emailsFound, donor_phones = phonesFound\<rparr>]
             else donorProfiles st),
          usedEmails = snd (fst sc), usedPhones = snd (snd sc)\<rparr>)"

text \<open>One iteration of the loop over the lines (lines 136 to 170).\<close>

definition lineStep :: "string list \<Rightarrow> builder \<Rightarrow> nat \<Rightarrow> builder" where
  "lineStep lines st i =
     (case match_first namePattern (lines ! i) of
        None \<Rightarrow> st
      | Some nm \<Rightarrow> processName lines st i nm)"

definition emptyBuilder :: builder where
  "emptyBuilder = \<lparr>donorProfiles = [], usedEmails = [], usedPhones = []\<rparr>"

definition buildProfiles :: "string \<Rightarrow> donor list" where
  "buildProfiles pageText =
     (let lines = pageLines pageText
      in donorProfiles (foldl (lineStep lines) emptyBuilder [0 ..< length lines]))"

section \<open>PDF records\<close>

record pdfRecord =
  url :: string
  pdf_text :: string
  extracted :: entities

text \<open>What the run is given by the browser and the PDF library: the inner text of the
  page body (\<open>None\<close> when it is undefined), the \<^verbatim>\<open>href\<close>s of the mailto links and of the
  links ending in \<^verbatim>\<open>.pdf\<close>, and for every PDF link whether \<^verbatim>\<open>downloadPDF\<close> returns true and
  the text \<^verbatim>\<open>extractPDFText\<close> returns (the empty string when parsing fails).  Both helpers
  catch their own exceptions.\<close>

record env =
  pageUrl :: string
  innerText :: "string option"
  mailtoHrefs :: "string list"
  pdfHrefs :: "string list"
  downloadPDF :: "string \<Rightarrow> bool"
  extractPDFText :: "string \<Rightarrow> string"

text \<open>One iteration of the loop over the PDF links (lines 106 to 127).\<close>

definition pdfStep :: "env \<Rightarrow> pdfRecord list \<Rightarrow> string \<Rightarrow> pdfRecord list" where
  "pdfStep e pdfData pdfUrl =
     (if downloadPDF e pdfUrl then
        (let pdfText = extractPDFText e pdfUrl
         in if pdfText \<noteq> [] then
              pdfData @ [\<lparr>url = pdfUrl, pdf_text = pdfText, extracted = pdfExtracted pdfText\<rparr>]
            else pdfData)
      else pdfData)"

definition processPdfs :: "env \<Rightarrow> string list \<Rightarrow> pdfRecord list" where
  "processPdfs e uniquePdfLinks = foldl (pdfStep e) [] uniquePdfLinks"

section \<open>The run\<close>

record resultRecord =
  Emails :: "string list"
  Phones :: "string list"
  Addresses :: "string list"
  Donations :: "string list"
  PDFLinks :: "string list"
  PDFData :: "pdfRecord list"
  RawText :: string
  Donors :: "donor list"

datatype error = PageEmpty

definition message :: "error \<Rightarrow> string" where
  "message err = (case err of PageEmpty \<Rightarrow> ''Page content is empty'')"

text \<open>\<^verbatim>\<open>document.body.innerText || ''\<close>\<close>

definition pageTextOf :: "env \<Rightarrow> string" where
  "pageTextOf e = (case innerText e of None \<Rightarrow> [] | Some t \<Rightarrow> t)"

text \<open>The body of the \<^verbatim>\<open>try\<close> block (lines 60 to 187): the error thrown, or the record
  \<^verbatim>\<open>data\<close>.  Navigation and the file system are taken to succeed.\<close>

definition run :: "env \<Rightarrow> error + resultRecord" where
  "run e =
     (let pageText = pageTextOf e
      in if pageText = [] then Inl PageEmpty
         else
           (let ents = extractEntities pageText (mailtoHrefs e);
                uniquePdfLinks = unique (pdfHrefs e)
            in Inr \<lparr>Emails = emails ents, Phones = phones ents,
                     Addresses = addresses ents, Donations = donations ents,
                     PDFLinks = uniquePdfLinks, PDFData = processPdfs e uniquePdfLinks,
                     RawText = pageText, Donors = buildProfiles pageText\<rparr>))"

text \<open>What the process leaves behind: the record written to \<^verbatim>\<open>extracted_data.json\<close>, the
  record printed as JSON on standard output, and the error reported by the \<^verbatim>\<open>catch\<close>
  handler on standard error.\<close>

record outcome =
  written :: "resultRecord option"
  printed :: "resultRecord option"
  reported :: "string option"

definition main :: "env \<Rightarrow> outcome" where
  "main e =
     (case run e of
        Inl err \<Rightarrow>
          \<lparr>written = None, printed = None,
           reported = Some (''Error processing URL '' @ pageUrl e @ '': '' @ message err)\<rparr>
      | Inr data \<Rightarrow> \<lparr>written = Some data, printed = Some data, reported = None\<rparr>)"

section \<open>Properties of the model\<close>

subsection \<open>Sets as insertion-ordered lists\<close>

lemma set_add_in: "x \<in> set s \<Longrightarrow> set_add s x = s"
  by (simp add: set_add_def set_has_def)

lemma set_add_notin: "x \<notin> set s \<Longrightarrow> set_add s x = s @ [x]"
  by (simp add: set_add_def set_has_def)

lemma claim_in: "a \<in> set u \<Longrightarrow> claim (f, u) a = (f, u)"
  by (simp add: claim_def set_has_def)

lemma claim_notin: "a \<notin> set u \<Longrightarrow> claim (f, u) a = (f @ [a], u @ [a])"
  by (simp add: claim_def set_has_def set_add_def)

lemma set_add_set: "set (set_add s x) = insert x (set s)"
  by (cases "x \<in> set s") (auto simp: set_add_in set_add_notin)

lemma set_add_distinct: "distinct s \<Longrightarrow> distinct (set_add s x)"
  by (cases "x \<in> set s") (auto simp: set_add_in set_add_notin)

lemma distinct_count_one: "distinct xs \<Longrightarrow> x \<in> set xs \<Longrightarrow> count_list xs x = 1"
  by (induction xs) auto

lemma foldl_set_add_set: "set (foldl set_add acc xs) = set acc \<union> set xs"
  by (induction xs arbitrary: acc) (auto simp: set_add_set)

lemma foldl_set_add_distinct: "distinct acc \<Longrightarrow> distinct (foldl set_add acc xs)"
  by (induction xs arbitrary: acc) (auto simp: set_add_distinct)

lemma foldl_set_add_prefix: "\<exists>zs. foldl set_add acc xs = acc @ zs"
proof (induction xs arbitrary: acc)
  case Nil
  show ?case by simp
next
  case (Cons x xs)
  from Cons.IH[of "set_add acc x"] obtain zs where
    "foldl set_add (set_add acc x) xs = set_add acc x @ zs" by blast
  then show ?case by (cases "x \<in> set acc") (auto simp: set_add_in set_add_notin)
qed

lemma foldl_set_add_takeWhile:
  "x \<in> set xs \<Longrightarrow> x \<notin> set acc \<Longrightarrow>
   takeWhile (\<lambda>y. y \<noteq> x) (foldl set_add acc xs) = foldl set_add acc (takeWhile (\<lambda>y. y \<noteq> x) xs)"
proof (induction xs arbitrary: acc)
  case Nil
  then show ?case by simp
next
  case (Cons y ys)
  show ?case
  proof (cases "y = x")
    case True
    from foldl_set_add_prefix[of "acc @ [x]" ys] obtain zs where
      "foldl set_add (acc @ [x]) ys = (acc @ [x]) @ zs" by blast
    moreover have "\<forall>y \<in> set acc. y \<noteq> x" using Cons.prems(2) by auto
    ultimately show ?thesis using True Cons.prems(2)
      by (simp add: set_add_notin takeWhile_append2)
  next
    case False
    with Cons.prems have "x \<in> set ys" "x \<notin> set (set_add acc y)"
      by (auto simp: set_add_set)
    from Cons.IH[OF this] False show ?thesis by simp
  qed
qed

lemma unique_set: "set (unique xs) = set xs"
  by (simp add: unique_def foldl_set_add_set)

lemma unique_distinct: "distinct (unique xs)"
  by (simp add: unique_def foldl_set_add_distinct)

lemma unique_count: "x \<in> set xs \<Longrightarrow> count_list (unique xs) x = 1"
  using unique_distinct[of xs] unique_set[of xs] by (simp add: distinct_count_one)

lemma unique_first:
  "x \<in> set xs \<Longrightarrow>
   takeWhile (\<lambda>y. y \<noteq> x) (unique xs) = unique (takeWhile (\<lambda>y. y \<noteq> x) xs)"
  by (simp add: unique_def foldl_set_add_takeWhile)

subsection \<open>Claiming contacts\<close>

lemma foldl_claim:
  "foldl claim (f, u) ms = (f', u') \<Longrightarrow>
   set u' = set u \<union> set ms \<and> set f' = set f \<union> (set ms - set u) \<and>
   (distinct f \<and> set f \<subseteq> set u \<longrightarrow> distinct f' \<and> set f' \<subseteq> set u')"
proof (induction ms arbitrary: f u)
  case Nil
  then show ?case by auto
next
  case (Cons a ms)
  show ?case
  proof (cases "a \<in> set u")
    case True
    with Cons.prems have "foldl claim (f, u) ms = (f', u')"
      by (simp add: claim_in)
    from Cons.IH[OF this] True show ?thesis by auto
  next
    case False
    with Cons.prems have "foldl claim (f @ [a], u @ [a]) ms = (f', u')"
      by (simp add: claim_notin)
    from Cons.IH[OF this] False show ?thesis by auto
  qed
qed

definition windowEmails :: "string list \<Rightarrow> nat \<Rightarrow> string list" where
  "windowEmails lines i = concat (map (\<lambda>j. emailMatches (lines ! j)) (window lines i))"

definition windowPhones :: "string list \<Rightarrow> nat \<Rightarrow> string list" where
  "windowPhones lines i = concat (map (\<lambda>j. phoneMatches (lines ! j)) (window lines i))"

lemma foldl_scanLine:
  "foldl (scanLine lines) sc js =
     (foldl claim (fst sc) (concat (map (\<lambda>j. emailMatches (lines ! j)) js)),
      foldl claim (snd sc) (concat (map (\<lambda>j. phoneMatches (lines ! j)) js)))"
  by (induction js arbitrary: sc) (simp_all add: scanLine_def)

lemma scanWindow_eq:
  "scanWindow lines i ue up =
     (foldl claim ([], ue) (windowEmails lines i), foldl claim ([], up) (windowPhones lines i))"
  by (simp add: scanWindow_def foldl_scanLine windowEmails_def windowPhones_def)

lemma scan_found:
  "foldl claim ([], u) ms = (f', u') \<Longrightarrow>
   set u' = set u \<union> set ms \<and> set f' = set ms - set u \<and> distinct f'"
  using foldl_claim[of "[]" u ms f' u'] by simp


subsection \<open>The profile loop\<close>

lemma processName_step:
  assumes "processName lines st i nm = st1"
  shows "set (usedEmails st1) = set (usedEmails st) \<union> set (windowEmails lines i)"
    and "set (usedPhones st1) = set (usedPhones st) \<union> set (windowPhones lines i)"
    and "donorProfiles st1 = donorProfiles st \<or>
         (\<exists>p. donorProfiles st1 = donorProfiles st @ [p] \<and> name p = nm \<and> 4 < length nm \<and>
              (donor_emails p \<noteq> [] \<or> donor_phones p \<noteq> []) \<and>
              distinct (donor_emails p) \<and>
              set (donor_emails p) = set (windowEmails lines i) - set (usedEmails st) \<and>
              distinct (donor_phones p) \<and>
              set (donor_phones p) = set (windowPhones lines i) - set (usedPhones st))"
proof -
  obtain fe ue where e: "foldl claim ([], usedEmails st) (windowEmails lines i) = (fe, ue)"
    by (cases "foldl claim ([], usedEmails st) (windowEmails lines i)") simp
  obtain fp up where p: "foldl claim ([], usedPhones st) (windowPhones lines i) = (fp, up)"
    by (cases "foldl claim ([], usedPhones st) (windowPhones lines i)") simp
  note fe = scan_found[OF e] and fp = scan_found[OF p]
  have st1: "st1 = \<lparr>donorProfiles =
                 (if (fe \<noteq> [] \<or> fp \<noteq> []) \<and> 4 < length nm
                  then donorProfiles st @ [\<lparr>name = nm, donor_emails = fe, donor_phones = fp\<rparr>]
                  else donorProfiles st),
               usedEmails = ue, usedPhones = up\<rparr>"
    using assms[symmetric] by (simp add: processName_def Let_def scanWindow_eq e p)
  show "set (usedEmails st1) = set (usedEmails st) \<union> set (windowEmails lines i)"
    using fe by (simp add: st1)
  show "set (usedPhones st1) = set (usedPhones st) \<union> set (windowPhones lines i)"
    using fp by (simp add: st1)
  show "donorProfiles st1 = donorProfiles st \<or>
         (\<exists>p. donorProfiles st1 = donorProfiles st @ [p] \<and> name p = nm \<and> 4 < length nm \<and>
              (donor_emails p \<noteq> [] \<or> donor_phones p \<noteq> []) \<and>
              distinct (donor_emails p) \<and>
              set (donor_emails p) = set (windowEmails lines i) - set (usedEmails st) \<and>
              distinct (donor_phones p) \<and>
              set (donor_phones p) = set (windowPhones lines i) - set (usedPhones st))"
    using fe fp by (simp add: st1)
qed

text \<open>What a stretch of the loop adds for one kind of contact: the lists of the new
  profiles are pairwise disjoint, avoid the contacts used before and are used after.\<close>

definition ext_ok :: "(donor \<Rightarrow> string list) \<Rightarrow> string list \<Rightarrow> string list \<Rightarrow> donor list \<Rightarrow> bool" where
  "ext_ok sel u u' ext =
     (distinct (concat (map sel ext)) \<and> set (concat (map sel ext)) \<inter> set u = {} \<and>
      set (concat (map sel ext)) \<subseteq> set u' \<and> set u \<subseteq> set u')"

lemma ext_ok_nil: "ext_ok sel u u []"
  by (simp add: ext_ok_def)

lemma ext_ok_mono: "set u \<subseteq> set u1 \<Longrightarrow> ext_ok sel u1 u' ext \<Longrightarrow> ext_ok sel u u' ext"
  by (auto simp: ext_ok_def)

lemma ext_ok_cons:
  "distinct (sel p) \<Longrightarrow> set (sel p) \<inter> set u = {} \<Longrightarrow> set (sel p) \<subseteq> set u1 \<Longrightarrow>
   set u \<subseteq> set u1 \<Longrightarrow> ext_ok sel u1 u' ext \<Longrightarrow> ext_ok sel u u' (p # ext)"
  by (auto simp: ext_ok_def)

definition gate_ok :: "donor \<Rightarrow> bool" where
  "gate_ok p = (4 < length (name p) \<and> (donor_emails p \<noteq> [] \<or> donor_phones p \<noteq> []))"

lemma lineStep_step:
  assumes "lineStep lines st i = st1"
  shows "\<exists>ext. donorProfiles st1 = donorProfiles st @ ext \<and>
           ext_ok donor_emails (usedEmails st) (usedEmails st1) ext \<and>
           ext_ok donor_phones (usedPhones st) (usedPhones st1) ext \<and>
           (\<forall>p \<in> set ext. gate_ok p)"
proof (cases "match_first namePattern (lines ! i)")
  case None
  with assms have "st1 = st" by (simp add: lineStep_def)
  then show ?thesis by (simp add: ext_ok_nil)
next
  case (Some nm)
  with assms have pn: "processName lines st i nm = st1" by (simp add: lineStep_def)
  note ps = processName_step[OF pn]
  from ps(3) show ?thesis
  proof
    assume "donorProfiles st1 = donorProfiles st"
    moreover have "ext_ok donor_emails (usedEmails st) (usedEmails st1) []"
      using ps(1) by (simp add: ext_ok_def)
    moreover have "ext_ok donor_phones (usedPhones st) (usedPhones st1) []"
      using ps(2) by (simp add: ext_ok_def)
    ultimately show ?thesis by simp
  next
    assume "\<exists>p. donorProfiles st1 = donorProfiles st @ [p] \<and> name p = nm \<and> 4 < length nm \<and>
              (donor_emails p \<noteq> [] \<or> donor_phones p \<noteq> []) \<and>
              distinct (donor_emails p) \<and>
              set (donor_emails p) = set (windowEmails lines i) - set (usedEmails st) \<and>
              distinct (donor_phones p) \<and>
              set (donor_phones p) = set (windowPhones lines i) - set (usedPhones st)"
    then obtain p where p: "donorProfiles st1 = donorProfiles st @ [p]" "name p = nm"
      "4 < length nm" "donor_emails p \<noteq> [] \<or> donor_phones p \<noteq> []"
      "distinct (donor_emails p)"
      "set (donor_emails p) = set (windowEmails lines i) - set (usedEmails st)"
      "distinct (donor_phones p)"
      "set (donor_phones p) = set (windowPhones lines i) - set (usedPhones st)"
      by blast
    have "ext_ok donor_emails (usedEmails st) (usedEmails st1) [p]"
      using p(5,6) ps(1) by (auto simp: ext_ok_def)
    moreover have "ext_ok donor_phones (usedPhones st) (usedPhones st1) [p]"
      using p(7,8) ps(2) by (auto simp: ext_ok_def)
    moreover have "gate_ok p" using p(2,3,4) by (simp add: gate_ok_def)
    ultimately show ?thesis using p(1) by simp
  qed
qed

lemma ext_ok_append:
  "ext_ok sel u u1 ext1 \<Longrightarrow> ext_ok sel u1 u2 ext2 \<Longrightarrow> ext_ok sel u u2 (ext1 @ ext2)"
  by (auto simp: ext_ok_def)

lemma foldl_lineStep:
  "\<exists>ext. donorProfiles (foldl (lineStep lines) st js) = donorProfiles st @ ext \<and>
         ext_ok donor_emails (usedEmails st) (usedEmails (foldl (lineStep lines) st js)) ext \<and>
         ext_ok donor_phones (usedPhones st) (usedPhones (foldl (lineStep lines) st js)) ext \<and>
         (\<forall>p \<in> set ext. gate_ok p)"
proof (induction js arbitrary: st)
  case Nil
  show ?case by (simp add: ext_ok_nil)
next
  case (Cons j js)
  let ?st1 = "lineStep lines st j"
  let ?st2 = "foldl (lineStep lines) ?st1 js"
  from lineStep_step[of lines st j ?st1] obtain ext1 where
    a: "donorProfiles ?st1 = donorProfiles st @ ext1"
       "ext_ok donor_emails (usedEmails st) (usedEmails ?st1) ext1"
       "ext_ok donor_phones (usedPhones st) (usedPhones ?st1) ext1"
       "\<forall>p \<in> set ext1. gate_ok p"
    by blast
  from Cons.IH[of ?st1] obtain ext2 where
    b: "donorProfiles ?st2 = donorProfiles ?st1 @ ext2"
       "ext_ok donor_emails (usedEmails ?st1) (usedEmails ?st2) ext2"
       "ext_ok donor_phones (usedPhones ?st1) (usedPhones ?st2) ext2"
       "\<forall>p \<in> set ext2. gate_ok p"
    by blast
  have "donorProfiles ?st2 = donorProfiles st @ (ext1 @ ext2)" using a(1) b(1) by simp
  moreover note ext_ok_append[OF a(2) b(2)] ext_ok_append[OF a(3) b(3)]
  moreover have "\<forall>p \<in> set (ext1 @ ext2). gate_ok p" using a(4) b(4) by auto
  ultimately show ?case by (intro exI[of _ "ext1 @ ext2"]) simp
qed

lemma buildProfiles_ok:
  "distinct (concat (map donor_emails (buildProfiles t))) \<and>
   distinct (concat (map donor_phones (buildProfiles t))) \<and>
   (\<forall>p \<in> set (buildProfiles t). gate_ok p)"
proof -
  let ?lines = "pageLines t"
  let ?st = "foldl (lineStep ?lines) emptyBuilder [0 ..< length ?lines]"
  from foldl_lineStep[of ?lines emptyBuilder "[0 ..< length ?lines]"] obtain ext where
    ext: "donorProfiles ?st = donorProfiles emptyBuilder @ ext"
         "ext_ok donor_emails (usedEmails emptyBuilder) (usedEmails ?st) ext"
         "ext_ok donor_phones (usedPhones emptyBuilder) (usedPhones ?st) ext"
         "\<forall>p \<in> set ext. gate_ok p"
    by blast
  have "buildProfiles t = ext" using ext(1) by (simp add: buildProfiles_def Let_def emptyBuilder_def)
  with ext(2,3,4) show ?thesis by (simp add: ext_ok_def)
qed

lemma distinct_concat_nth:
  "distinct (concat xss) \<Longrightarrow> i < j \<Longrightarrow> j < length xss \<Longrightarrow> set (xss ! i) \<inter> set (xss ! j) = {}"
proof (induction xss arbitrary: i j)
  case Nil
  then show ?case by simp
next
  case (Cons xs xss)
  show ?case
  proof (cases i)
    case 0
    with Cons.prems obtain j' where j': "j = Suc j'" "j' < length xss" by (cases j) auto
    then have "xss ! j' \<in> set xss" by simp
    then have "set (xss ! j') \<subseteq> set (concat xss)" by auto
    with Cons.prems(1) 0 j' show ?thesis by auto
  next
    case (Suc i')
    with Cons.prems obtain j' where j': "j = Suc j'" "j' < length xss" "i' < j'" by (cases j) auto
    with Cons.IH[of i' j'] Cons.prems(1) Suc show ?thesis by simp
  qed
qed

subsection \<open>PDF loop\<close>

definition pdfOk :: "env \<Rightarrow> string \<Rightarrow> bool" where
  "pdfOk e u = (downloadPDF e u \<and> extractPDFText e u \<noteq> [])"

lemma pdfStep_ok:
  "pdfOk e u \<Longrightarrow> pdfStep e acc u =
     acc @ [\<lparr>url = u, pdf_text = extractPDFText e u, extracted = pdfExtracted (extractPDFText e u)\<rparr>]"
  by (simp add: pdfStep_def pdfOk_def Let_def)

lemma pdfStep_fail: "\<not> pdfOk e u \<Longrightarrow> pdfStep e acc u = acc"
  by (auto simp: pdfStep_def pdfOk_def Let_def)


lemma foldl_pdfStep_records:
  "p \<in> set (foldl (pdfStep e) acc us) \<Longrightarrow> p \<in> set acc \<or>
     (url p \<in> set us \<and> pdfOk e (url p) \<and> pdf_text p = extractPDFText e (url p) \<and>
      extracted p = pdfExtracted (pdf_text p))"
proof (induction us arbitrary: acc)
  case Nil
  then show ?case by simp
next
  case (Cons u us)
  show ?case
  proof (cases "pdfOk e u")
    case True
    with Cons.prems Cons.IH[of "acc @ [\<lparr>url = u, pdf_text = extractPDFText e u,
           extracted = pdfExtracted (extractPDFText e u)\<rparr>]"]
    show ?thesis by (auto simp: pdfStep_ok)
  next
    case False
    with Cons.prems Cons.IH[of acc] show ?thesis by (auto simp: pdfStep_fail)
  qed
qed

lemma foldl_set_add_distinct_id: "distinct (acc @ xs) \<Longrightarrow> foldl set_add acc xs = acc @ xs"
  by (induction xs arbitrary: acc) (simp_all add: set_add_notin)

lemma unique_distinct_id: "distinct xs \<Longrightarrow> unique xs = xs"
  using foldl_set_add_distinct_id[of "[]" xs] by (simp add: unique_def)

lemma run_nonempty:
  "pageTextOf e \<noteq> [] \<Longrightarrow>
   run e = Inr \<lparr>Emails = uniqueEmails (pageTextOf e) (mailtoHrefs e),
                Phones = uniquePhones (pageTextOf e),
                Addresses = uniqueAddresses (pageTextOf e),
                Donations = uniqueDonations (pageTextOf e),
                PDFLinks = unique (pdfHrefs e),
                PDFData = processPdfs e (unique (pdfHrefs e)),
                RawText = pageTextOf e, Donors = buildProfiles (pageTextOf e)\<rparr>"
  by (simp add: run_def Let_def extractEntities_def)

lemma run_Inr:
  "run e = Inr r \<Longrightarrow> pageTextOf e \<noteq> [] \<and>
     r = \<lparr>Emails = uniqueEmails (pageTextOf e) (mailtoHrefs e),
          Phones = uniquePhones (pageTextOf e),
          Addresses = uniqueAddresses (pageTextOf e),
          Donations = uniqueDonations (pageTextOf e),
          PDFLinks = unique (pdfHrefs e),
          PDFData = processPdfs e (unique (pdfHrefs e)),
          RawText = pageTextOf e, Donors = buildProfiles (pageTextOf e)\<rparr>"
  by (cases "pageTextOf e = []") (auto simp: run_def Let_def extractEntities_def)

lemma run_empty: "pageTextOf e = [] \<Longrightarrow> run e = Inl PageEmpty"
  by (simp add: run_def)

section \<open>Empty page text (C5)\<close>

definition emptyPage :: env where
  "emptyPage = \<lparr>pageUrl = ''http://example.org'', innerText = Some [], mailtoHrefs = [],
                 pdfHrefs = [''http://example.org/a.pdf''], downloadPDF = (\<lambda>u. True),
                 extractPDFText = (\<lambda>u. ''text'')\<rparr>"

text \<open>
  Claim C5.  If the fetched page text is empty (the inner text of the body is undefined or
  the empty string), the run throws ``Page content is empty'': the \<^verbatim>\<open>catch\<close> handler
  reports the failure on standard error, and no result record is written or printed.
\<close>

theorem empty_page_aborts:
  "pageTextOf e = [] \<Longrightarrow>
   run e = Inl PageEmpty \<and> written (main e) = None \<and> printed (main e) = None \<and>
   reported (main e) = Some (''Error processing URL '' @ pageUrl e @ '': Page content is empty'')"
  by (simp add: run_empty main_def message_def)

theorem empty_page_aborts_witness:
  "pageTextOf emptyPage = [] \<and> run emptyPage = Inl PageEmpty \<and>
   written (main emptyPage) = None \<and> printed (main emptyPage) = None \<and>
   reported (main emptyPage) =
     Some ''Error processing URL http://example.org: Page content is empty''"
proof -
  have h: "pageTextOf emptyPage = []" by (simp add: pageTextOf_def emptyPage_def)
  from empty_page_aborts[OF h] h show ?thesis by (simp add: emptyPage_def)
qed

section \<open>Donor exclusivity (C3)\<close>

definition twoDonors :: env where
  "twoDonors = \<lparr>pageUrl = ''http://example.org'',
     innerText = Some (''John Smith'' @ [CHR 0x0A] @ ''john@a.org 12 555 123 4567'' @ [CHR 0x0A] @
                       ''Jane Doe'' @ [CHR 0x0A] @ ''jane@b.org 13 555 123 4567''),
     mailtoHrefs = [], pdfHrefs = [], downloadPDF = (\<lambda>u. False), extractPDFText = (\<lambda>u. [])\<rparr>"

definition twoDonorsProfiles :: "donor list" where
  "twoDonorsProfiles =
     [\<lparr>name = ''John Smith'', donor_emails = [''john@a.org''], donor_phones = [''12 555 123 4567'']\<rparr>,
      \<lparr>name = ''Jane Doe'', donor_emails = [''jane@b.org''], donor_phones = [''13 555 123 4567'']\<rparr>]"

lemma twoDonors_profiles: "buildProfiles (pageTextOf twoDonors) = twoDonorsProfiles"
  by code_simp

text \<open>
  Claim C3.  In the result of every run, no email string appears in the email lists of two
  different donor profiles, and no cleaned phone string appears in the phone lists of two
  different donor profiles.
\<close>

theorem donor_exclusivity:
  assumes "run e = Inr r" and "i < j" and "j < length (Donors r)"
  shows "set (donor_emails (Donors r ! i)) \<inter> set (donor_emails (Donors r ! j)) = {} \<and>
         set (donor_phones (Donors r ! i)) \<inter> set (donor_phones (Donors r ! j)) = {}"
proof -
  from run_Inr[OF assms(1)] have d: "Donors r = buildProfiles (pageTextOf e)" by simp
  note ok = buildProfiles_ok[of "pageTextOf e"]
  have "set (map donor_emails (Donors r) ! i) \<inter> set (map donor_emails (Donors r) ! j) = {}"
    using distinct_concat_nth[of "map donor_emails (Donors r)" i j] ok assms(2,3) d by simp
  moreover
  have "set (map donor_phones (Donors r) ! i) \<inter> set (map donor_phones (Donors r) ! j) = {}"
    using distinct_concat_nth[of "map donor_phones (Donors r)" i j] ok assms(2,3) d by simp
  ultimately show ?thesis using assms(2,3) by simp
qed

theorem donor_exclusivity_witness:
  "(\<exists>r. run twoDonors = Inr r \<and> Donors r = twoDonorsProfiles \<and>
        (0::nat) < 1 \<and> 1 < length (Donors r) \<and>
        set (donor_emails (Donors r ! 0)) \<inter> set (donor_emails (Donors r ! 1)) = {} \<and>
        set (donor_phones (Donors r ! 0)) \<inter> set (donor_phones (Donors r ! 1)) = {})"
proof -
  have ne: "pageTextOf twoDonors \<noteq> []" by (simp add: pageTextOf_def twoDonors_def)
  let ?r = "\<lparr>Emails = uniqueEmails (pageTextOf twoDonors) (mailtoHrefs twoDonors),
                Phones = uniquePhones (pageTextOf twoDonors),
                Addresses = uniqueAddresses (pageTextOf twoDonors),
                Donations = uniqueDonations (pageTextOf twoDonors),
                PDFLinks = unique (pdfHrefs twoDonors),
                PDFData = processPdfs twoDonors (unique (pdfHrefs twoDonors)),
                RawText = pageTextOf twoDonors, Donors = buildProfiles (pageTextOf twoDonors)\<rparr>"
  have r: "run twoDonors = Inr ?r" using ne by (rule run_nonempty)
  have d: "Donors ?r = twoDonorsProfiles" by (simp add: twoDonors_profiles)
  have l: "1 < length (Donors ?r)" by (simp add: twoDonors_profiles twoDonorsProfiles_def)
  from donor_exclusivity[OF r _ l, of 0] r d l show ?thesis by (intro exI[of _ ?r]) simp
qed

section \<open>The name-length gate (C7)\<close>

definition alB :: string where
  "alB = ''Al B'' @ [CHR 0x0A] @ ''john@x.com''"

definition janeDoe :: string where
  "janeDoe = ''Jane Doe'' @ [CHR 0x0A] @ ''a@b.com''"

lemma alB_profiles: "buildProfiles alB = []"
  by code_simp

lemma janeDoe_profiles:
  "buildProfiles janeDoe = [\<lparr>name = ''Jane Doe'', donor_emails = [''a@b.com''], donor_phones = []\<rparr>]"
  by code_simp

lemma processName_short:
  "length nm \<le> 4 \<Longrightarrow> donorProfiles (processName lines st i nm) = donorProfiles st"
  by (simp add: processName_def Let_def)

lemma alB_processName:
  "processName [''Al B'', ''john@x.com''] emptyBuilder 0 ''Al B'' =
     \<lparr>donorProfiles = [], usedEmails = [''john@x.com''], usedPhones = []\<rparr>"
  by code_simp

text \<open>
  Claim C7.  For every page text, each emitted donor profile has a name of more than four
  characters and at least one email or phone; the body of the loop emits no profile for a
  name of four or fewer characters, whatever contacts lie in its window; and the text
  \<^verbatim>\<open>"Al B\njohn@x.com"\<close> yields no profile.
\<close>

theorem name_length_gate:
  "(\<forall>p \<in> set (buildProfiles t).
      4 < length (name p) \<and> (donor_emails p \<noteq> [] \<or> donor_phones p \<noteq> [])) \<and>
   (length nm \<le> 4 \<longrightarrow> donorProfiles (processName lines st i nm) = donorProfiles st) \<and>
   buildProfiles (''Al B'' @ [CHR 0x0A] @ ''john@x.com'') = []"
  using buildProfiles_ok[of t] processName_short[of nm lines st i] alB_profiles
  by (simp add: gate_ok_def alB_def)

theorem name_length_gate_witness:
  "\<lparr>name = ''Jane Doe'', donor_emails = [''a@b.com''], donor_phones = []\<rparr> \<in> set (buildProfiles janeDoe) \<and>
   4 < length ''Jane Doe'' \<and>
   length ''Al B'' \<le> 4 \<and>
   usedEmails (processName [''Al B'', ''john@x.com''] emptyBuilder 0 ''Al B'') = [''john@x.com''] \<and>
   donorProfiles (processName [''Al B'', ''john@x.com''] emptyBuilder 0 ''Al B'') = []"
  using name_length_gate[of janeDoe "''Al B''" "[''Al B'', ''john@x.com'']" emptyBuilder 0]
  by (simp add: janeDoe_profiles alB_processName)

section \<open>Phone clean-up\<close>

text \<open>The clean-up in the words of the specification: every maximal run of separator
  characters becomes \<open>rep\<close>; all other characters are kept.\<close>

function collapseRuns :: "cls \<Rightarrow> string \<Rightarrow> string \<Rightarrow> string" where
  "collapseRuns k rep [] = []"
| "collapseRuns k rep (c # cs) =
     (if in_cls k c then rep @ collapseRuns k rep (dropWhile (in_cls k) cs)
      else c # collapseRuns k rep cs)"
  by pat_completeness auto
termination
  by (relation "measure (\<lambda>(k, rep, s). length s)")
     (auto simp: length_dropWhile_le less_Suc_eq_le)

lemma repeat_star_cls:
  "\<exists>q ys. repeatMatcher (matcher (Cls k)) 0 None (p, s) = (q, dropWhile (in_cls k) s) # ys"
proof (induction s arbitrary: p)
  case Nil
  show ?case by (subst repeatMatcher.simps) simp
next
  case (Cons c cs)
  show ?case
  proof (cases "in_cls k c")
    case True
    from Cons.IH[of "Some c"] obtain q ys where
      "repeatMatcher (matcher (Cls k)) 0 None (Some c, cs) = (q, dropWhile (in_cls k) cs) # ys"
      by blast
    with True show ?thesis by (subst repeatMatcher.simps) simp
  next
    case False
    then show ?thesis by (subst repeatMatcher.simps) simp
  qed
qed

lemma matcher_plus_cls:
  "matcher (rplus (Cls k)) (p, s) =
     (case s of [] \<Rightarrow> []
      | c # cs \<Rightarrow> if in_cls k c then repeatMatcher (matcher (Cls k)) 0 None (Some c, cs) else [])"
  by (cases s) (simp_all add: rplus_def repeatMatcher.simps[of _ "Suc 0"])

lemma take_length_dropWhile:
  "take (length s - length (dropWhile P s)) s = takeWhile P s"
proof (induction s)
  case Nil
  show ?case by simp
next
  case (Cons c cs)
  have "length (dropWhile P cs) \<le> length cs" by (rule length_dropWhile_le)
  then have "Suc (length cs) - length (dropWhile P cs) = Suc (length cs - length (dropWhile P cs))"
    by simp
  with Cons show ?case by simp
qed

lemma exec_at_plus_cls_hit:
  assumes "in_cls k c"
  shows "\<exists>q. exec_at (rplus (Cls k)) (p, c # cs) =
              Some (c # takeWhile (in_cls k) cs, (q, dropWhile (in_cls k) cs))"
proof -
  from repeat_star_cls[of k "Some c" cs] obtain q ys where
    m: "repeatMatcher (matcher (Cls k)) 0 None (Some c, cs) = (q, dropWhile (in_cls k) cs) # ys"
    by blast
  have "length (dropWhile (in_cls k) cs) \<le> length cs" by (rule length_dropWhile_le)
  then have "Suc (length cs) - length (dropWhile (in_cls k) cs) =
             Suc (length cs - length (dropWhile (in_cls k) cs))" by simp
  then have "take (length (c # cs) - length (dropWhile (in_cls k) cs)) (c # cs) =
             c # takeWhile (in_cls k) cs"
    by (simp add: take_length_dropWhile)
  then have "exec_at (rplus (Cls k)) (p, c # cs) =
              Some (c # takeWhile (in_cls k) cs, (q, dropWhile (in_cls k) cs))"
    using assms m by (simp add: exec_at_def matcher_plus_cls)
  then show ?thesis by blast
qed

lemma exec_at_plus_cls_miss:
  "\<not> in_cls k c \<Longrightarrow> exec_at (rplus (Cls k)) (p, c # cs) = None"
  by (simp add: exec_at_def matcher_plus_cls)

lemma exec_at_plus_cls_nil: "exec_at (rplus (Cls k)) (p, []) = None"
  by (simp add: exec_at_def matcher_plus_cls)

lemma search_plus_cls_none:
  "\<forall>x \<in> set s. \<not> in_cls k x \<Longrightarrow> search (rplus (Cls k)) p s = None"
  by (induction s arbitrary: p) (simp_all add: exec_at_plus_cls_nil exec_at_plus_cls_miss)

lemma search_plus_cls_some:
  assumes "\<forall>x \<in> set pre. \<not> in_cls k x" and "in_cls k c"
  shows "\<exists>q. search (rplus (Cls k)) p (pre @ c # cs) =
              Some (pre, c # takeWhile (in_cls k) cs, (q, dropWhile (in_cls k) cs))"
  using assms(1)
proof (induction pre arbitrary: p)
  case Nil
  from exec_at_plus_cls_hit[OF assms(2), of p cs] show ?case by auto
next
  case (Cons a pre)
  from Cons.prems have a: "\<not> in_cls k a" and pre: "\<forall>x \<in> set pre. \<not> in_cls k x" by simp_all
  from Cons.IH[OF pre, of "Some a"] obtain q where
    "search (rplus (Cls k)) (Some a) (pre @ c # cs) =
       Some (pre, c # takeWhile (in_cls k) cs, (q, dropWhile (in_cls k) cs))" by blast
  with a show ?case by (simp add: exec_at_plus_cls_miss)
qed

lemma collapseRuns_none: "\<forall>x \<in> set s. \<not> in_cls k x \<Longrightarrow> collapseRuns k rep s = s"
  by (induction s) simp_all

lemma collapseRuns_pre:
  "\<forall>x \<in> set pre. \<not> in_cls k x \<Longrightarrow> collapseRuns k rep (pre @ t) = pre @ collapseRuns k rep t"
  by (induction pre) simp_all

text \<open>The global replace of \<^verbatim>\<open>/[...]+/g\<close> is the collapse of the runs of the class.\<close>

lemma replace_from_plus_cls:
  "replace_from (rplus (Cls k)) rep p s = collapseRuns k rep s"
proof (induction "length s" arbitrary: p s rule: less_induct)
  case less
  let ?pre = "takeWhile (\<lambda>x. \<not> in_cls k x) s"
  let ?rest = "dropWhile (\<lambda>x. \<not> in_cls k x) s"
  show ?case
  proof (cases ?rest)
    case Nil
    then have none: "\<forall>x \<in> set s. \<not> in_cls k x" by (simp add: dropWhile_eq_Nil_conv)
    then show ?thesis
      by (subst replace_from.simps) (simp add: search_plus_cls_none collapseRuns_none)
  next
    case (Cons c cs)
    then have c: "in_cls k c" using hd_dropWhile[of "\<lambda>x. \<not> in_cls k x" s] by auto
    have pre: "\<forall>x \<in> set ?pre. \<not> in_cls k x" by (auto dest: set_takeWhileD)
    have s: "s = ?pre @ c # cs" using Cons takeWhile_dropWhile_id[of "\<lambda>x. \<not> in_cls k x" s] by simp
    from search_plus_cls_some[OF pre c, of p cs] obtain q where
      q: "search (rplus (Cls k)) p (?pre @ c # cs) =
            Some (?pre, c # takeWhile (in_cls k) cs, (q, dropWhile (in_cls k) cs))" by blast
    have "length (dropWhile (in_cls k) cs) \<le> length cs" by (rule length_dropWhile_le)
    moreover have "length s = length ?pre + Suc (length cs)" by (subst s) simp
    ultimately have lt: "length (dropWhile (in_cls k) cs) < length s" by simp
    have "replace_from (rplus (Cls k)) rep p (?pre @ c # cs) =
            ?pre @ rep @ replace_from (rplus (Cls k)) rep q (dropWhile (in_cls k) cs)"
      by (subst replace_from.simps) (simp add: q)
    also have "\<dots> = ?pre @ rep @ collapseRuns k rep (dropWhile (in_cls k) cs)"
      using less[OF lt] by simp
    also have "\<dots> = collapseRuns k rep (?pre @ c # cs)"
      using c by (simp add: collapseRuns_pre[OF pre])
    finally show ?thesis using s by simp
  qed
qed

lemma cleanPhone_collapse: "cleanPhone s = trim (collapseRuns sepClass '' '' s)"
  by (simp add: cleanPhone_def replace_g_def replace_from_plus_cls)


subsection \<open>Normal forms of the clean-up\<close>

text \<open>A cleaned string: its only separator characters are single spaces (the flag says
  that the character before is a separator).\<close>

fun cleaned :: "bool \<Rightarrow> string \<Rightarrow> bool" where
  "cleaned b [] = True"
| "cleaned b (c # cs) =
     (if isSep c then c = CHR '' '' \<and> \<not> b \<and> cleaned True cs else cleaned False cs)"

lemma isSpace_isSep: "isSpace c \<Longrightarrow> isSep c"
  by (simp add: isSpace_def isSep_def sepClass_def in_cls_def)

lemma isSep_blank: "isSep CHR '' ''"
  by (simp add: isSep_def sepClass_def spaceClass_def in_cls_def)

lemma isSpace_blank: "isSpace CHR '' ''"
  by (simp add: isSpace_def spaceClass_def in_cls_def)

lemma collapse_sep_Cons:
  "collapseRuns sepClass '' '' (c # cs) =
     (if isSep c then CHR '' '' # collapseRuns sepClass '' '' (dropWhile isSep cs)
      else c # collapseRuns sepClass '' '' cs)"
proof -
  have eq: "isSep = in_cls sepClass" by (rule ext) (simp add: isSep_def)
  show ?thesis unfolding eq by (simp only: collapseRuns.simps append_Cons append_Nil)
qed

declare collapseRuns.simps(2) [simp del]

lemma cleaned_weaken: "cleaned b s \<Longrightarrow> cleaned False s"
  by (cases s) (auto split: if_splits)

lemma cleaned_collapse:
  "(b \<longrightarrow> s = [] \<or> \<not> isSep (hd s)) \<Longrightarrow> cleaned b (collapseRuns sepClass '' '' s)"
proof (induction "length s" arbitrary: b s rule: less_induct)
  case less
  show ?case
  proof (cases s)
    case Nil
    then show ?thesis by simp
  next
    case (Cons c cs)
    show ?thesis
    proof (cases "isSep c")
      case True
      with less.prems Cons have nb: "\<not> b" by simp
      have "length (dropWhile isSep cs) \<le> length cs" by (rule length_dropWhile_le)
      then have lt: "length (dropWhile isSep cs) < length s" using Cons by simp
      have "dropWhile isSep cs = [] \<or> \<not> isSep (hd (dropWhile isSep cs))"
        using hd_dropWhile[of isSep cs] by blast
      then have "cleaned True (collapseRuns sepClass '' '' (dropWhile isSep cs))"
        using less.hyps[OF lt, of True] by simp
      with True nb Cons show ?thesis by (simp add: collapse_sep_Cons isSep_blank)
    next
      case False
      have "cleaned False (collapseRuns sepClass '' '' cs)"
        using less.hyps[of cs False] Cons by simp
      with False Cons show ?thesis by (simp add: collapse_sep_Cons)
    qed
  qed
qed

lemma cleaned_dropWhile: "cleaned b s \<Longrightarrow> cleaned False (dropWhile P s)"
proof (induction s arbitrary: b)
  case Nil
  show ?case by simp
next
  case (Cons c cs)
  show ?case
  proof (cases "P c")
    case True
    from Cons.prems obtain b' where "cleaned b' cs" by (auto split: if_splits)
    from Cons.IH[OF this] True show ?thesis by simp
  next
    case False
    with Cons.prems show ?thesis using cleaned_weaken[of b "c # cs"] by simp
  qed
qed

lemma cleaned_trimEnd: "cleaned b s \<Longrightarrow> cleaned b (trimEnd s)"
proof (induction s arbitrary: b)
  case Nil
  show ?case by simp
next
  case (Cons c cs)
  show ?case
  proof (cases "isSep c")
    case True
    with Cons.prems have c: "c = CHR '' ''" "\<not> b" "cleaned True cs" by simp_all
    from Cons.IH[OF c(3)] have "cleaned True (trimEnd cs)" .
    with True c(1,2) show ?thesis by (cases "trimEnd cs") (simp_all add: isSep_blank)
  next
    case False
    with Cons.prems have "cleaned False cs" by simp
    from Cons.IH[OF this] have "cleaned False (trimEnd cs)" .
    with False show ?thesis by (cases "trimEnd cs") simp_all
  qed
qed

lemma collapse_cleaned: "cleaned b s \<Longrightarrow> collapseRuns sepClass '' '' s = s"
proof (induction s arbitrary: b)
  case Nil
  show ?case by simp
next
  case (Cons c cs)
  show ?case
  proof (cases "isSep c")
    case True
    with Cons.prems have c: "c = CHR '' ''" "cleaned True cs" by simp_all
    from c(2) have "dropWhile isSep cs = cs" by (cases cs) (auto split: if_splits)
    with True c(1) Cons.IH[OF c(2)] show ?thesis by (simp add: collapse_sep_Cons)
  next
    case False
    with Cons.prems have "cleaned False cs" by simp
    with False Cons.IH[of False] show ?thesis by (simp add: collapse_sep_Cons)
  qed
qed

lemma trimEnd_Nil_iff: "trimEnd s = [] \<longleftrightarrow> (\<forall>c \<in> set s. isSpace c)"
  by (induction s) (auto split: list.splits)

lemma trimEnd_hd: "s \<noteq> [] \<Longrightarrow> \<not> isSpace (hd s) \<Longrightarrow> trimEnd s \<noteq> [] \<and> hd (trimEnd s) = hd s"
  by (cases s) (auto split: list.splits)

lemma trimEnd_idem: "trimEnd (trimEnd s) = trimEnd s"
  by (induction s) (auto split: list.splits)

lemma trim_idem: "trim (trim s) = trim s"
proof -
  let ?u = "dropWhile isSpace s"
  have "dropWhile isSpace (trimEnd ?u) = trimEnd ?u"
  proof (cases "trimEnd ?u")
    case Nil
    then show ?thesis by simp
  next
    case (Cons d ds)
    have ne: "?u \<noteq> []"
    proof
      assume "?u = []"
      then have "trimEnd ?u = []" by (simp only: trimEnd.simps)
      with Cons show False by simp
    qed
    then have "\<not> isSpace (hd ?u)" using hd_dropWhile[of isSpace s] by simp
    from trimEnd_hd[OF ne this] Cons have "\<not> isSpace d" using \<open>\<not> isSpace (hd ?u)\<close> by simp
    with Cons show ?thesis by simp
  qed
  then show ?thesis by (simp add: trim_def trimEnd_idem)
qed

lemma cleaned_trim: "cleaned b s \<Longrightarrow> cleaned False (trim s)"
  unfolding trim_def by (rule cleaned_trimEnd) (rule cleaned_dropWhile)

lemma cleaned_cleanPhone: "cleaned False (cleanPhone s)"
  unfolding cleanPhone_collapse
  by (rule cleaned_trim[of False]) (simp add: cleaned_collapse)

subsection \<open>Characters kept by the clean-up\<close>

lemma filter_dropWhile_sep:
  "filter (\<lambda>c. \<not> isSep c) (dropWhile isSep s) = filter (\<lambda>c. \<not> isSep c) s"
  by (induction s) simp_all

lemma filter_dropWhile_space:
  "filter (\<lambda>c. \<not> isSep c) (dropWhile isSpace s) = filter (\<lambda>c. \<not> isSep c) s"
  by (induction s) (auto dest: isSpace_isSep)

lemma filter_trimEnd:
  "filter (\<lambda>c. \<not> isSep c) (trimEnd s) = filter (\<lambda>c. \<not> isSep c) s"
proof (induction s)
  case Nil
  show ?case by simp
next
  case (Cons c cs)
  show ?case
  proof (cases "trimEnd cs")
    case Nil
    with Cons have "filter (\<lambda>c. \<not> isSep c) cs = []" by simp
    with Nil show ?thesis by (auto dest: isSpace_isSep)
  next
    case (Cons d ds)
    with Cons.IH show ?thesis by simp
  qed
qed

lemma filter_collapse:
  "filter (\<lambda>c. \<not> isSep c) (collapseRuns sepClass '' '' s) = filter (\<lambda>c. \<not> isSep c) s"
proof (induction "length s" arbitrary: s rule: less_induct)
  case less
  show ?case
  proof (cases s)
    case Nil
    then show ?thesis by simp
  next
    case (Cons c cs)
    show ?thesis
    proof (cases "isSep c")
      case True
      have "length (dropWhile isSep cs) \<le> length cs" by (rule length_dropWhile_le)
      then have "length (dropWhile isSep cs) < length s" using Cons by simp
      from less[OF this] True Cons show ?thesis
        by (simp add: collapse_sep_Cons isSep_blank filter_dropWhile_sep)
    next
      case False
      with less[of cs] Cons show ?thesis by (simp add: collapse_sep_Cons)
    qed
  qed
qed

lemma filter_cleanPhone:
  "filter (\<lambda>c. \<not> isSep c) (cleanPhone s) = filter (\<lambda>c. \<not> isSep c) s"
  by (simp add: cleanPhone_collapse trim_def filter_trimEnd filter_dropWhile_space filter_collapse)

lemma cleanPhone_idem: "cleanPhone (cleanPhone s) = cleanPhone s"
proof -
  have "collapseRuns sepClass '' '' (cleanPhone s) = cleanPhone s"
    using cleaned_cleanPhone by (rule collapse_cleaned)
  then have "cleanPhone (cleanPhone s) = trim (cleanPhone s)"
    by (simp add: cleanPhone_collapse[of "cleanPhone s"])
  also have "\<dots> = cleanPhone s" by (simp add: cleanPhone_collapse trim_idem)
  finally show ?thesis .
qed

section \<open>Idempotence of the phone clean-up (C8)\<close>

lemma cleanPhone_example: "cleanPhone ''12-555..123 - 4567 '' = ''12 555 123 4567''"
  by code_simp

text \<open>
  Claim C8.  The phone clean-up replaces every maximal run of dash, dot and white space
  characters by one space and trims the result; applied to a string that is already
  cleaned it returns that string unchanged.
\<close>

theorem phone_normalization_idempotent:
  "cleanPhone phone = trim (collapseRuns sepClass '' '' phone) \<and>
   cleanPhone (cleanPhone phone) = cleanPhone phone"
  by (intro conjI) (rule cleanPhone_collapse, rule cleanPhone_idem)

theorem phone_normalization_idempotent_witness:
  "cleanPhone ''12-555..123 - 4567 '' = ''12 555 123 4567'' \<and>
   cleanPhone ''12 555 123 4567'' = ''12 555 123 4567''"
proof -
  from phone_normalization_idempotent[of "''12-555..123 - 4567 ''"]
  have "cleanPhone (cleanPhone ''12-555..123 - 4567 '') = cleanPhone ''12-555..123 - 4567 ''"
    by (rule conjunct2)
  then show ?thesis by (simp add: cleanPhone_example)
qed

section \<open>Parentheses survive the clean-up (C10)\<close>

definition parenPage :: string where
  "parenPage = ''12 (555) 123-4567'' @ [CHR 0x0A] @ ''12 555 123-4567''"

lemma paren_match: "match_g phonePattern ''call 12 (555) 123-4567 now'' = [''12 (555) 123-4567'']"
  by code_simp

lemma paren_clean: "cleanPhone ''12 (555) 123-4567'' = ''12 (555) 123 4567''"
  by code_simp

lemma paren_unique: "uniquePhones parenPage = [''12 (555) 123 4567'', ''12 555 123 4567'']"
  by code_simp

lemma isSep_parens: "\<not> isSep CHR ''('' \<and> \<not> isSep CHR '')''"
  by (simp add: isSep_def sepClass_def spaceClass_def in_cls_def)

text \<open>
  Claim C10.  The phone clean-up keeps every character that is not a dash, a dot or white
  space, in order; parentheses are such characters.  The phone token
  \<^verbatim>\<open>12 (555) 123-4567\<close> is matched with its parentheses and cleaned to
  \<^verbatim>\<open>12 (555) 123 4567\<close>, and a page with the same number written with and without
  parentheses has two distinct elements in \<^verbatim>\<open>Phones\<close>.
\<close>

theorem parentheses_preserved:
  "filter (\<lambda>c. \<not> isSep c) (cleanPhone phone) = filter (\<lambda>c. \<not> isSep c) phone \<and>
   \<not> isSep CHR ''('' \<and> \<not> isSep CHR '')'' \<and>
   match_g phonePattern ''call 12 (555) 123-4567 now'' = [''12 (555) 123-4567''] \<and>
   cleanPhone ''12 (555) 123-4567'' = ''12 (555) 123 4567'' \<and>
   uniquePhones (''12 (555) 123-4567'' @ [CHR 0x0A] @ ''12 555 123-4567'') =
     [''12 (555) 123 4567'', ''12 555 123 4567'']"
  using paren_unique
  by (simp add: filter_cleanPhone isSep_parens paren_match paren_clean parenPage_def)

theorem parentheses_preserved_witness:
  "filter (\<lambda>c. \<not> isSep c) (cleanPhone ''12 (555) 123-4567'') = ''12(555)1234567''"
proof -
  have h: "filter (\<lambda>c. \<not> isSep c) ''12 (555) 123-4567'' = ''12(555)1234567''"
    by code_simp
  from parentheses_preserved[of "''12 (555) 123-4567''"]
  have "filter (\<lambda>c. \<not> isSep c) (cleanPhone ''12 (555) 123-4567'') =
        filter (\<lambda>c. \<not> isSep c) ''12 (555) 123-4567''"
    by (rule conjunct1)
  from this h show ?thesis by (rule trans)
qed

section \<open>The end-to-end example (C1)\<close>

definition johnSmithText :: string where
  "johnSmithText = ''John Smith'' @ [CHR 0x0A] @ ''john.smith@example.com'' @ [CHR 0x0A] @
                   ''(555) 123-4567'' @ [CHR 0x0A] @ ''Donation: $1,250.00''"

definition johnSmithPage :: env where
  "johnSmithPage = \<lparr>pageUrl = ''http://example.org'', innerText = Some johnSmithText,
     mailtoHrefs = [], pdfHrefs = [], downloadPDF = (\<lambda>u. False), extractPDFText = (\<lambda>u. [])\<rparr>"

lemma johnSmith_emails: "uniqueEmails johnSmithText [] = [''john.smith@example.com'']"
  by code_simp

lemma johnSmith_phones: "uniquePhones johnSmithText = []"
  by code_simp

lemma johnSmith_addresses: "uniqueAddresses johnSmithText = []"
  by code_simp

lemma johnSmith_donations:
  "uniqueDonations johnSmithText = [''555'', ''123'', ''456'', ''7'', ''$1,250.00'']"
  by code_simp

lemma johnSmith_donors:
  "buildProfiles johnSmithText =
     [\<lparr>name = ''John Smith'', donor_emails = [''john.smith@example.com''], donor_phones = []\<rparr>]"
  by code_simp

lemma johnSmith_run:
  "run johnSmithPage =
     Inr \<lparr>Emails = [''john.smith@example.com''], Phones = [], Addresses = [],
          Donations = [''555'', ''123'', ''456'', ''7'', ''$1,250.00''],
          PDFLinks = [], PDFData = [], RawText = johnSmithText,
          Donors = [\<lparr>name = ''John Smith'', donor_emails = [''john.smith@example.com''],
                     donor_phones = []\<rparr>]\<rparr>"
proof -
  have t: "pageTextOf johnSmithPage = johnSmithText" by (simp add: pageTextOf_def johnSmithPage_def)
  have ne: "pageTextOf johnSmithPage \<noteq> []" unfolding t by (simp add: johnSmithText_def)
  have l: "mailtoHrefs johnSmithPage = []" "pdfHrefs johnSmithPage = []"
    by (simp_all add: johnSmithPage_def)
  show ?thesis
    unfolding run_nonempty[OF ne] t l
    by (simp add: johnSmith_emails johnSmith_phones johnSmith_addresses johnSmith_donations
          johnSmith_donors unique_def processPdfs_def)
qed

text \<open>
  Claim C1, as the specification states it, fails: on the four-line page text the phone
  list of the run is empty, not \<^verbatim>\<open>["555 123 4567"]\<close>, and the profile of John Smith has no
  phone.
\<close>

theorem end_to_end_counterexample:
  "map_sum id Phones (run johnSmithPage) \<noteq> Inr [''555 123 4567''] \<and>
   map_sum id Donors (run johnSmithPage) \<noteq>
     Inr [\<lparr>name = ''John Smith'', donor_emails = [''john.smith@example.com''],
            donor_phones = [''555 123 4567'']\<rparr>]"
  by (simp add: johnSmith_run)

text \<open>
  Claim C1, amended.  For the page text of the four lines \<^verbatim>\<open>John Smith\<close>,
  \<^verbatim>\<open>john.smith@example.com\<close>, \<^verbatim>\<open>(555) 123-4567\<close>, \<^verbatim>\<open>Donation: $1,250.00\<close> (no mailto and no
  PDF links) the run produces the emails \<^verbatim>\<open>["john.smith@example.com"]\<close>, no phones (the
  phone pattern needs two or three digits before the groups of three, three and four
  digits), the donations \<^verbatim>\<open>["555", "123", "456", "7", "$1,250.00"]\<close> and the single donor
  profile of John Smith with that email and no phone.
\<close>

theorem end_to_end_example:
  "map_sum id Emails (run johnSmithPage) = Inr [''john.smith@example.com''] \<and>
   map_sum id Phones (run johnSmithPage) = Inr [] \<and>
   map_sum id Donations (run johnSmithPage) = Inr [''555'', ''123'', ''456'', ''7'', ''$1,250.00''] \<and>
   map_sum id Donors (run johnSmithPage) =
     Inr [\<lparr>name = ''John Smith'', donor_emails = [''john.smith@example.com''],
            donor_phones = []\<rparr>]"
  by (simp add: johnSmith_run)

section \<open>Entities of a PDF text (C2)\<close>

definition dupPdfText :: string where
  "dupPdfText = ''12 555-123-4567 a@b.co 12 555 123 4567 a@b.co''"

definition dupPdf :: env where
  "dupPdf = \<lparr>pageUrl = ''http://example.org'', innerText = Some ''x'', mailtoHrefs = [],
              pdfHrefs = [''a.pdf''], downloadPDF = (\<lambda>u. True),
              extractPDFText = (\<lambda>u. dupPdfText)\<rparr>"

lemma dupPdf_raw:
  "pdfExtracted dupPdfText =
     \<lparr>emails = [''a@b.co'', ''a@b.co''],
      phones = [''12 555-123-4567'', ''12 555 123 4567''],
      addresses = [],
      donations = [''12'', ''555'', ''123'', ''456'', ''7'', ''12'', ''555'', ''123'', ''456'', ''7'']\<rparr>"
  by code_simp

lemma dupPdf_page:
  "extractEntities dupPdfText [] =
     \<lparr>emails = [''a@b.co''], phones = [''12 555 123 4567''], addresses = [],
      donations = [''12'', ''555'', ''123'', ''456'', ''7'']\<rparr>"
  by code_simp

lemma dupPdf_data:
  "map_sum id PDFData (run dupPdf) =
     Inr [\<lparr>url = ''a.pdf'', pdf_text = dupPdfText, extracted = pdfExtracted dupPdfText\<rparr>]"
proof -
  have ne: "pageTextOf dupPdf \<noteq> []" by (simp add: pageTextOf_def dupPdf_def)
  have u: "unique (pdfHrefs dupPdf) = [''a.pdf'']"
    using unique_distinct_id[of "[''a.pdf'']"] by (simp add: dupPdf_def)
  have ok: "pdfOk dupPdf ''a.pdf''" by (simp add: pdfOk_def dupPdf_def dupPdfText_def)
  have t: "extractPDFText dupPdf ''a.pdf'' = dupPdfText" by (simp add: dupPdf_def)
  show ?thesis
    unfolding run_nonempty[OF ne] u by (simp add: processPdfs_def pdfStep_ok[OF ok] t)
qed

text \<open>
  Claim C2.  The specification asks that the entity lists of a PDF record equal the
  page-level extraction of the PDF text (phones cleaned, every list deduplicated).  The
  code stores the lists of matches as they are: for a PDF whose text holds the same email
  twice and the same number in two spellings, the record has both emails and both
  spellings, whereas the page-level extraction of that text yields one email and one
  cleaned phone.
\<close>

theorem pdf_entities_divergence:
  "map_sum id (map extracted \<circ> PDFData) (run dupPdf) = Inr [pdfExtracted dupPdfText] \<and>
   emails (pdfExtracted dupPdfText) = [''a@b.co'', ''a@b.co''] \<and>
   emails (extractEntities dupPdfText []) = [''a@b.co''] \<and>
   phones (pdfExtracted dupPdfText) = [''12 555-123-4567'', ''12 555 123 4567''] \<and>
   phones (extractEntities dupPdfText []) = [''12 555 123 4567''] \<and>
   pdfExtracted dupPdfText \<noteq> extractEntities dupPdfText []"
proof -
  have "map_sum id (map extracted \<circ> PDFData) (run dupPdf) =
        map_sum (id \<circ> id) ((map extracted) \<circ> PDFData) (run dupPdf)" by simp
  also have "\<dots> = map_sum id (map extracted) (map_sum id PDFData (run dupPdf))"
    by (simp only: sum.map_comp)
  also have "\<dots> = Inr [pdfExtracted dupPdfText]" by (simp add: dupPdf_data)
  finally show ?thesis by (simp add: dupPdf_raw dupPdf_page)
qed

text \<open>
  What the PDF loop stores in general: every record of \<^verbatim>\<open>PDFData\<close> belongs to a PDF link
  whose text was fetched and is not empty, and its \<^verbatim>\<open>extracted\<close> lists are the lists of
  matches of the four patterns in that text, in match order, with repetitions and with the
  phones as matched.  The page-level extraction of the same text (without links) is
  obtained from them by cleaning the phones and deduplicating each list.
\<close>

lemma pdf_entities_raw:
  assumes "run e = Inr r"
  shows "\<forall>p \<in> set (PDFData r).
           pdf_text p = extractPDFText e (url p) \<and> pdf_text p \<noteq> [] \<and>
           emails (extracted p) = match_g emailPattern (pdf_text p) \<and>
           phones (extracted p) = match_g phonePattern (pdf_text p) \<and>
           addresses (extracted p) = match_g addressPattern (pdf_text p) \<and>
           donations (extracted p) = match_g donationPattern (pdf_text p) \<and>
           extractEntities (pdf_text p) [] =
             \<lparr>emails = unique (emails (extracted p)),
              phones = unique (map cleanPhone (phones (extracted p))),
              addresses = unique (addresses (extracted p)),
              donations = unique (donations (extracted p))\<rparr>"
proof
  fix p
  assume "p \<in> set (PDFData r)"
  with run_Inr[OF assms] have "p \<in> set (foldl (pdfStep e) [] (unique (pdfHrefs e)))"
    by (simp add: processPdfs_def)
  from foldl_pdfStep_records[OF this] have
    p: "pdfOk e (url p)" "pdf_text p = extractPDFText e (url p)"
       "extracted p = pdfExtracted (pdf_text p)" by simp_all
  from p(1,2) have "pdf_text p \<noteq> []" by (simp add: pdfOk_def)
  with p(2,3) show "pdf_text p = extractPDFText e (url p) \<and> pdf_text p \<noteq> [] \<and>
           emails (extracted p) = match_g emailPattern (pdf_text p) \<and>
           phones (extracted p) = match_g phonePattern (pdf_text p) \<and>
           addresses (extracted p) = match_g addressPattern (pdf_text p) \<and>
           donations (extracted p) = match_g donationPattern (pdf_text p) \<and>
           extractEntities (pdf_text p) [] =
             \<lparr>emails = unique (emails (extracted p)),
              phones = unique (map cleanPhone (phones (extracted p))),
              addresses = unique (addresses (extracted p)),
              donations = unique (donations (extracted p))\<rparr>"
    by (simp add: pdfExtracted_def extractEntities_def uniqueEmails_def uniquePhones_def
          cleanedPhones_def uniqueAddresses_def uniqueDonations_def emailLinks_def)
qed

lemma pdf_entities_raw_example:
  "\<exists>r. run dupPdf = Inr r \<and>
       \<lparr>url = ''a.pdf'', pdf_text = dupPdfText, extracted = pdfExtracted dupPdfText\<rparr> \<in> set (PDFData r) \<and>
       phones (pdfExtracted dupPdfText) = match_g phonePattern dupPdfText \<and>
       phones (extractEntities dupPdfText []) =
         unique (map cleanPhone (phones (pdfExtracted dupPdfText)))"
proof -
  have ne: "pageTextOf dupPdf \<noteq> []" by (simp add: pageTextOf_def dupPdf_def)
  from run_nonempty[OF ne] obtain r where r: "run dupPdf = Inr r" by blast
  with dupPdf_data have d:
    "PDFData r = [\<lparr>url = ''a.pdf'', pdf_text = dupPdfText, extracted = pdfExtracted dupPdfText\<rparr>]"
    by simp
  let ?p = "\<lparr>url = ''a.pdf'', pdf_text = dupPdfText, extracted = pdfExtracted dupPdfText\<rparr>"
  have m: "?p \<in> set (PDFData r)" by (simp add: d)
  from pdf_entities_raw[OF r] m have
    "phones (extracted ?p) = match_g phonePattern (pdf_text ?p) \<and>
     extractEntities (pdf_text ?p) [] =
       \<lparr>emails = unique (emails (extracted ?p)),
        phones = unique (map cleanPhone (phones (extracted ?p))),
        addresses = unique (addresses (extracted ?p)),
        donations = unique (donations (extracted ?p))\<rparr>"
    by blast
  then have "phones (pdfExtracted dupPdfText) = match_g phonePattern dupPdfText \<and>
       phones (extractEntities dupPdfText []) =
         unique (map cleanPhone (phones (pdfExtracted dupPdfText)))"
    by simp
  with r m show ?thesis by blast
qed

section \<open>The shortest match of a pattern\<close>







section \<open>Deduplication (C4)\<close>

definition repeats :: env where
  "repeats = \<lparr>pageUrl = ''http://example.org'',
     innerText = Some ''a@b.co 12 555 123 4567 c@d.co 13-555-123-4567 a@b.co 12.555.123.4567'',
     mailtoHrefs = [''mailto:c@d.co'', ''mailto:e@f.co''], pdfHrefs = [],
     downloadPDF = (\<lambda>u. False), extractPDFText = (\<lambda>u. [])\<rparr>"

lemma repeats_emails:
  "match_g emailPattern (pageTextOf repeats) @ emailLinks (mailtoHrefs repeats) =
     [''a@b.co'', ''c@d.co'', ''a@b.co'', ''c@d.co'', ''e@f.co'']"
  by code_simp

lemma repeats_raw_phones:
  "match_g phonePattern (pageTextOf repeats) =
     [''12 555 123 4567'', ''13-555-123-4567'', ''12.555.123.4567'']"
  by code_simp

lemma repeats_result:
  "uniqueEmails (pageTextOf repeats) (mailtoHrefs repeats) = [''a@b.co'', ''c@d.co'', ''e@f.co''] \<and>
   uniquePhones (pageTextOf repeats) = [''12 555 123 4567'', ''13 555 123 4567'']"
  by code_simp

text \<open>
  Claim C4.  In the result of a run, every string among the email matches of the page text
  and the mailto links occurs exactly once in \<^verbatim>\<open>Emails\<close>, and the elements before it are the
  deduplicated matches that precede its first occurrence.  For every phone match of the
  page text, its normal form (every maximal run of dash, dot and white space replaced by
  one space, then trimmed) occurs exactly once in \<^verbatim>\<open>Phones\<close>, and the elements before it are
  the deduplicated normal forms of the matches that precede the first match with that
  normal form.
\<close>

theorem dedup_first_occurrence:
  assumes "run e = Inr r"
  shows "(\<forall>x \<in> set (match_g emailPattern (pageTextOf e) @ emailLinks (mailtoHrefs e)).
            count_list (Emails r) x = 1 \<and>
            takeWhile (\<lambda>y. y \<noteq> x) (Emails r) =
              unique (takeWhile (\<lambda>y. y \<noteq> x)
                        (match_g emailPattern (pageTextOf e) @ emailLinks (mailtoHrefs e)))) \<and>
         (\<forall>m \<in> set (match_g phonePattern (pageTextOf e)).
            count_list (Phones r) (trim (collapseRuns sepClass '' '' m)) = 1 \<and>
            takeWhile (\<lambda>y. y \<noteq> trim (collapseRuns sepClass '' '' m)) (Phones r) =
              unique (map (\<lambda>m'. trim (collapseRuns sepClass '' '' m'))
                        (takeWhile (\<lambda>m'. trim (collapseRuns sepClass '' '' m') \<noteq>
                                         trim (collapseRuns sepClass '' '' m))
                           (match_g phonePattern (pageTextOf e)))))"
proof -
  let ?N = "\<lambda>m. trim (collapseRuns sepClass '' '' m)"
  let ?raw = "match_g phonePattern (pageTextOf e)"
  have c: "cleanPhone = ?N" by (rule ext) (rule cleanPhone_collapse)
  from run_Inr[OF assms] have
    em: "Emails r = unique (match_g emailPattern (pageTextOf e) @ emailLinks (mailtoHrefs e))"
    and ph: "Phones r = unique (map ?N ?raw)"
    by (simp_all add: uniqueEmails_def uniquePhones_def cleanedPhones_def c)
  have emails: "\<forall>x \<in> set (match_g emailPattern (pageTextOf e) @ emailLinks (mailtoHrefs e)).
            count_list (Emails r) x = 1 \<and>
            takeWhile (\<lambda>y. y \<noteq> x) (Emails r) =
              unique (takeWhile (\<lambda>y. y \<noteq> x)
                        (match_g emailPattern (pageTextOf e) @ emailLinks (mailtoHrefs e)))"
    unfolding em by (simp add: unique_count unique_first)
  have phones: "\<forall>m \<in> set ?raw.
            count_list (Phones r) (?N m) = 1 \<and>
            takeWhile (\<lambda>y. y \<noteq> ?N m) (Phones r) =
              unique (map ?N (takeWhile (\<lambda>m'. ?N m' \<noteq> ?N m) ?raw))"
  proof
    fix m
    assume "m \<in> set ?raw"
    then have mem: "?N m \<in> set (map ?N ?raw)" by simp
    have "takeWhile (\<lambda>y. y \<noteq> ?N m) (map ?N ?raw) =
          map ?N (takeWhile (\<lambda>m'. ?N m' \<noteq> ?N m) ?raw)"
      by (simp add: takeWhile_map comp_def)
    with unique_count[OF mem] unique_first[OF mem]
    show "count_list (Phones r) (?N m) = 1 \<and>
            takeWhile (\<lambda>y. y \<noteq> ?N m) (Phones r) =
              unique (map ?N (takeWhile (\<lambda>m'. ?N m' \<noteq> ?N m) ?raw))"
      unfolding ph by simp
  qed
  from emails phones show ?thesis by (rule conjI)
qed

lemma repeats_norm:
  "trim (collapseRuns sepClass '' '' ''12.555.123.4567'') = ''12 555 123 4567''"
proof -
  have "cleanPhone ''12.555.123.4567'' = ''12 555 123 4567''" by code_simp
  then show ?thesis by (simp only: cleanPhone_collapse)
qed

theorem dedup_first_occurrence_witness:
  "\<exists>r. run repeats = Inr r \<and>
       match_g phonePattern (pageTextOf repeats) =
         [''12 555 123 4567'', ''13-555-123-4567'', ''12.555.123.4567''] \<and>
       Phones r = [''12 555 123 4567'', ''13 555 123 4567''] \<and>
       count_list (Phones r) (trim (collapseRuns sepClass '' '' ''12.555.123.4567'')) = 1 \<and>
       takeWhile (\<lambda>y. y \<noteq> trim (collapseRuns sepClass '' '' ''12.555.123.4567'')) (Phones r) = [] \<and>
       Emails r = [''a@b.co'', ''c@d.co'', ''e@f.co''] \<and>
       count_list (Emails r) ''c@d.co'' = 1 \<and>
       takeWhile (\<lambda>y. y \<noteq> ''c@d.co'') (Emails r) = [''a@b.co'']"
proof -
  have ne: "pageTextOf repeats \<noteq> []" by (simp add: pageTextOf_def repeats_def)
  let ?r = "\<lparr>Emails = uniqueEmails (pageTextOf repeats) (mailtoHrefs repeats),
                Phones = uniquePhones (pageTextOf repeats),
                Addresses = uniqueAddresses (pageTextOf repeats),
                Donations = uniqueDonations (pageTextOf repeats),
                PDFLinks = unique (pdfHrefs repeats),
                PDFData = processPdfs repeats (unique (pdfHrefs repeats)),
                RawText = pageTextOf repeats, Donors = buildProfiles (pageTextOf repeats)\<rparr>"
  have r: "run repeats = Inr ?r" using ne by (rule run_nonempty)
  have m: "''12.555.123.4567'' \<in> set (match_g phonePattern (pageTextOf repeats))"
    by (simp add: repeats_raw_phones)
  have x: "''c@d.co'' \<in> set (match_g emailPattern (pageTextOf repeats) @ emailLinks (mailtoHrefs repeats))"
    by (simp add: repeats_emails)
  from dedup_first_occurrence[OF r] m x have
    "count_list (Phones ?r) (trim (collapseRuns sepClass '' '' ''12.555.123.4567'')) = 1"
    "count_list (Emails ?r) ''c@d.co'' = 1"
    by blast+
  then show ?thesis using r
    by (intro exI[of _ ?r]) (simp add: repeats_raw_phones repeats_result repeats_norm)
qed

section \<open>PDF isolation (C6)\<close>








section \<open>Contacts in the window of a name (C9)\<close>



















end
